theory Spec2Isabelle
  imports Main
begin

section \<open>Strings\<close>

text \<open>
  A Python \<^verbatim>\<open>str\<close> is modelled as a \<^typ>\<open>string\<close>, the list of the bytes of its UTF-8
  encoding. The character classes and \<^verbatim>\<open>str.lower()\<close> are modelled on the ASCII range: a
  byte above 127 is neither white space nor a digit and is left as it is, which is what
  Python does with the Hangul syllables of the sample codes of this repository.
\<close>

definition isspace :: "char \<Rightarrow> bool" where
  \<comment> \<open>\<^verbatim>\<open>str.isspace\<close> and the class \<^verbatim>\<open>\s\<close> of \<^verbatim>\<open>re\<close> on ASCII:
      TAB, LF, VT, FF, CR, FS, GS, RS, US and the blank.\<close>
  "isspace c = (let n = (of_char c :: nat) in (9 \<le> n \<and> n \<le> 13) \<or> (28 \<le> n \<and> n \<le> 32))"

definition isdigit :: "char \<Rightarrow> bool" where
  \<comment> \<open>the class \<^verbatim>\<open>\d\<close> of \<^verbatim>\<open>re\<close> on ASCII\<close>
  "isdigit c = (let n = (of_char c :: nat) in 48 \<le> n \<and> n \<le> 57)"

definition lower_char :: "char \<Rightarrow> char" where
  "lower_char c = (let n = (of_char c :: nat) in if 65 \<le> n \<and> n \<le> 90 then char_of (n + 32) else c)"



definition lower :: "string \<Rightarrow> string" where
  \<comment> \<open>\<^verbatim>\<open>str.lower()\<close>\<close>
  "lower s = map lower_char s"


definition lstrip :: "string \<Rightarrow> string" where
  "lstrip s = dropWhile isspace s"

definition rstrip :: "string \<Rightarrow> string" where
  "rstrip s = rev (dropWhile isspace (rev s))"

definition strip :: "string \<Rightarrow> string" where
  \<comment> \<open>\<^verbatim>\<open>str.strip()\<close>: white space removed at both ends\<close>
  "strip s = rstrip (lstrip s)"

definition rstrip_chars :: "string \<Rightarrow> string \<Rightarrow> string" where
  \<comment> \<open>\<^verbatim>\<open>s.rstrip(chars)\<close>: every trailing character that occurs in \<open>chars\<close> is removed\<close>
  "rstrip_chars chars s = rev (dropWhile (\<lambda>c. c \<in> set chars) (rev s))"

section \<open>Key normalisation (merge\_rearrange.py)\<close>

text \<open>
  \<^verbatim>\<open>_MULTISPACE_RE.sub(" ", s)\<close> with \<^verbatim>\<open>_MULTISPACE_RE = re.compile(r"\s+")\<close>: every maximal
  run of white space becomes one blank.
\<close>

function multispace_sub :: "string \<Rightarrow> string" where
  "multispace_sub [] = []"
| "multispace_sub (c # cs) =
     (if isspace c then CHR '' '' # multispace_sub (dropWhile isspace cs)
      else c # multispace_sub cs)"
  by pat_completeness auto
termination
  by (relation "measure length") (auto simp: length_dropWhile_le less_Suc_eq_le)

definition normalize_code :: "string \<Rightarrow> string" where
  "normalize_code code =
     (let s = strip code;
          s = multispace_sub s;
          s = rstrip_chars ''/'' s
      in lower s)"

section \<open>Errors\<close>

text \<open>
  The exceptions the two scripts raise. All of them are subclasses of \<^verbatim>\<open>Exception\<close>,
  so the handler \<^verbatim>\<open>except Exception\<close> of \<^verbatim>\<open>backoff_call\<close> catches each of them.
  \<open>RuntimeError\<close> carries its message, which contains the text of the failure of the
  remote service.
\<close>

datatype error = EnvironmentError | ImportError | RuntimeError string | ValueError

section \<open>Column headers and sentences (merge\_affectiveExpression.py)\<close>

text \<open>
  \<^verbatim>\<open>_HEADER_PREFIX_RE = re.compile(r"^\s*\d+\.\s*")\<close>. White space, digits and the dot are
  disjoint classes, so the greedy match is the only one: all leading white space, then
  all digits (at least one), then a dot, then all white space. The result is the rest of
  the header after the match, \<open>None\<close> when the pattern does not match.
\<close>

definition header_prefix_match :: "string \<Rightarrow> string option" where
  "header_prefix_match h =
     (let r = dropWhile isspace h;
          digits = takeWhile isdigit r
      in if digits = [] then None
         else (case dropWhile isdigit r of
                 [] \<Rightarrow> None
               | c # t \<Rightarrow> if c = CHR ''.'' then Some (dropWhile isspace t) else None))"

definition header_prefix_sub :: "string \<Rightarrow> string" where
  \<comment> \<open>\<^verbatim>\<open>_HEADER_PREFIX_RE.sub("", header)\<close>: the pattern is anchored, so at most one match
      is removed\<close>
  "header_prefix_sub h = (case header_prefix_match h of None \<Rightarrow> h | Some rest \<Rightarrow> rest)"

definition clean_header :: "string option \<Rightarrow> string" where
  "clean_header header =
     (case header of
        None \<Rightarrow> []
      | Some h \<Rightarrow> strip (header_prefix_sub h))"

text \<open>
  A column of a data frame is the list of its cells in row order; an absent cell (NaN) is
  \<open>None\<close>, a present one is given by its \<^verbatim>\<open>str\<close> rendering.
\<close>

fun dropna :: "'a option list \<Rightarrow> 'a list" where
  "dropna [] = []"
| "dropna (None # vs) = dropna vs"
| "dropna (Some v # vs) = v # dropna vs"

fun collect_loop :: "string list \<Rightarrow> string list \<Rightarrow> string list" where
  "collect_loop [] sentences = sentences"
| "collect_loop (v # vs) sentences =
     (let text = strip v
      in collect_loop vs (if text \<noteq> [] then sentences @ [text] else sentences))"

definition collect_sentences :: "string option list \<Rightarrow> string list" where
  "collect_sentences series = collect_loop (dropna series) []"

section \<open>The merge client and its retries (merge\_affectiveExpression.py)\<close>

text \<open>
  The effects of the merge stage are recorded in a trace: every entry into
  \<^verbatim>\<open>call_openai_merge\<close>, every request sent to the remote service (the model name and
  the content sent) and every \<^verbatim>\<open>time.sleep\<close>.
\<close>

datatype event =
    Invoked
  | ChatRequest string string
  | ResponsesRequest string string
  | Slept nat

text \<open>
  What the remote service answers. A chat completion is the list of its choices, each
  the content of its message (which may be \<^verbatim>\<open>None\<close>). A response either has the
  attribute \<^verbatim>\<open>output_text\<close> or is the list of its outputs, each the list of the texts of
  its content items. Either request may raise; the text is that of the exception.
\<close>

datatype chat_reply = ChatRaises string | ChatCompletion "string option list"

datatype responses_reply =
    ResponsesRaises string
  | OutputText "string option"
  | Output "string option list list"

text \<open>
  The world the merge stage runs in: the environment variable \<^verbatim>\<open>OPENAI_API_KEY\<close>, whether
  the package \<^verbatim>\<open>openai\<close> can be imported, the remote service (its answer may depend on
  everything that happened so far, the request included) and the trace.
\<close>

record world =
  api_key :: "string option"
  openai_installed :: bool
  chat_api :: "event list \<Rightarrow> chat_reply"
  responses_api :: "event list \<Rightarrow> responses_reply"
  trace :: "event list"

definition emit :: "event \<Rightarrow> world \<Rightarrow> world" where
  "emit e w = w\<lparr>trace := trace w @ [e]\<rparr>"

definition time_sleep :: "nat \<Rightarrow> world \<Rightarrow> world" where
  "time_sleep n w = emit (Slept n) w"

definition invocations :: "event list \<Rightarrow> nat" where
  "invocations t = length (filter (\<lambda>e. e = Invoked) t)"

fun is_request :: "event \<Rightarrow> bool" where
  "is_request (ChatRequest m c) = True"
| "is_request (ResponsesRequest m c) = True"
| "is_request e = False"

definition requests :: "event list \<Rightarrow> event list" where
  "requests t = filter is_request t"

fun sleeps :: "event list \<Rightarrow> nat list" where
  "sleeps [] = []"
| "sleeps (Slept n # t) = n # sleeps t"
| "sleeps (e # t) = sleeps t"

definition prompt_header :: string where
  \<comment> \<open>the UTF-8 bytes of the Korean instruction of lines 67 to 71\<close>
  "prompt_header = map char_of
     [236, 149, 132, 235, 158, 152, 32, 235, 172, 184, 236, 158, 165, 235, 147, 164, 236, 157, 128, 32,
      236, 134, 140, 236, 158, 172, 236, 151, 144, 32, 235, 140, 128, 237, 149, 156, 32, 234, 176, 144,
      236, 132, 177, 236, 150, 184, 236, 150, 180, 235, 147, 164, 236, 157, 132, 32, 237, 145, 156, 237,
      152, 132, 237, 149, 156, 234, 177, 176, 236, 149, 188, 46, 32, 236, 160, 132, 235, 182, 128, 32,
      237, 149, 169, 236, 179, 144, 236, 132, 156, 32, 235, 172, 184, 235, 139, 168, 236, 156, 188, 235,
      161, 156, 32, 235, 167, 140, 235, 147, 164, 236, 150, 180, 32, 236, 163, 188, 234, 179, 160, 44,
      32, 235, 172, 184, 236, 158, 165, 32, 235, 129, 157, 235, 167, 186, 236, 157, 140, 236, 157, 132,
      32, 126, 236, 157, 140, 46, 32, 236, 178, 180, 235, 161, 156, 32, 237, 149, 180, 236, 164, 152,
      46, 32, 236, 182, 156, 235, 160, 165, 236, 157, 128, 32, 237, 149, 152, 235, 130, 152, 236, 157,
      152, 32, 235, 172, 184, 235, 139, 168, 235, 167, 140, 32, 236, 160, 156, 234, 179, 181, 237, 149,
      180, 236, 164, 152, 46 :: nat]"

definition list_label :: string where
  \<comment> \<open>the UTF-8 bytes of the Korean label before the bullet list (line 73)\<close>
  "list_label = map char_of
     [235, 172, 184, 236, 158, 165, 32, 235, 170, 169, 235, 161, 157, 58 :: nat]"

definition responses_failure_prefix :: string where
  \<comment> \<open>the UTF-8 bytes of the beginning of the message of line 119\<close>
  "responses_failure_prefix = map char_of
     [79, 112, 101, 110, 65, 73, 32, 237, 152, 184, 236, 182, 156, 32, 236, 139, 164, 237, 140, 168,
      40, 114, 101, 115, 112, 111, 110, 115, 101, 115, 41, 58, 32 :: nat]"

fun join :: "string \<Rightarrow> string list \<Rightarrow> string" where
  "join sep [] = []"
| "join sep [s] = s"
| "join sep (s # t) = s @ sep @ join sep t"

definition user_content_of :: "string list \<Rightarrow> string" where
  "user_content_of sentences =
     (let bullet_list = join [CHR 0x0A] (map (\<lambda>s. ''- '' @ s) sentences)
      in prompt_header @ [CHR 0x0A, CHR 0x0A] @ list_label @ [CHR 0x0A] @ bullet_list)"

definition or_empty :: "string option \<Rightarrow> string" where
  \<comment> \<open>\<^verbatim>\<open>x or ""\<close>\<close>
  "or_empty x = (case x of None \<Rightarrow> [] | Some t \<Rightarrow> t)"

definition chat_content :: "string option list \<Rightarrow> string" where
  \<comment> \<open>lines 94 and 95\<close>
  "chat_content choices =
     strip (or_empty (case choices of [] \<Rightarrow> Some [] | c # _ \<Rightarrow> c))"

definition responses_content :: "string option list list \<Rightarrow> string" where
  \<comment> \<open>lines 107 to 117\<close>
  "responses_content outputs =
     (case outputs of
        [] \<Rightarrow> []
      | first # _ \<Rightarrow>
          (case first of
             [] \<Rightarrow> []
           | item # _ \<Rightarrow> strip (or_empty item)))"

definition call_openai_merge :: "string list \<Rightarrow> string \<Rightarrow> world \<Rightarrow> (error + string) \<times> world" where
  "call_openai_merge sentences model w =
     (let w0 = emit Invoked w
      in if sentences = [] then (Inr [], w0)
         else
           let user_content = user_content_of sentences
           in if or_empty (api_key w0) = [] then (Inl EnvironmentError, w0)
              else if \<not> openai_installed w0 then (Inl ImportError, w0)
              else
                let w1 = emit (ChatRequest model user_content) w0
                in (case chat_api w1 (trace w1) of
                      ChatCompletion choices \<Rightarrow> (Inr (chat_content choices), w1)
                    | ChatRaises _ \<Rightarrow>
                        let w2 = emit (ResponsesRequest model user_content) w1
                        in (case responses_api w2 (trace w2) of
                              OutputText t \<Rightarrow> (Inr (strip (or_empty t)), w2)
                            | Output outputs \<Rightarrow> (Inr (responses_content outputs), w2)
                            | ResponsesRaises e \<Rightarrow>
                                (Inl (RuntimeError (responses_failure_prefix @ e)), w2))))"

text \<open>
  The loop \<^verbatim>\<open>for attempt in range(retries)\<close> of \<^verbatim>\<open>backoff_call\<close>, over the attempts that
  remain. Leaving the loop without a result returns the empty string.
\<close>

fun backoff_loop :: "string list \<Rightarrow> string \<Rightarrow> nat \<Rightarrow> nat list \<Rightarrow> world \<Rightarrow> (error + string) \<times> world" where
  "backoff_loop sentences model retries [] w = (Inr [], w)"
| "backoff_loop sentences model retries (attempt # rest) w =
     (case call_openai_merge sentences model w of
        (Inr r, w') \<Rightarrow> (Inr r, w')
      | (Inl e, w') \<Rightarrow>
          if int attempt = int retries - 1 then (Inl e, w')
          else backoff_loop sentences model retries rest (time_sleep (2 ^ attempt) w'))"

definition backoff_call :: "string list \<Rightarrow> string \<Rightarrow> nat \<Rightarrow> world \<Rightarrow> (error + string) \<times> world" where
  "backoff_call sentences model retries w = backoff_loop sentences model retries [0..<retries] w"

section \<open>The reorder stage (merge\_rearrange.py)\<close>

text \<open>
  A data frame is the list of its columns in order, each a label and its cells in row
  order; all columns of a data frame have the same number of cells. The reorder stage
  loads every cell as a string. \<^verbatim>\<open>pandas.read_csv\<close> renames a repeated header label, so the
  labels of a loaded table are pairwise distinct.
\<close>

type_synonym table = "(string \<times> string list) list"

definition select_columns :: "string list \<Rightarrow> table \<Rightarrow> table" where
  \<comment> \<open>\<^verbatim>\<open>df[[a, b]]\<close>: the columns labelled \<open>a\<close>, then those labelled \<open>b\<close>\<close>
  "select_columns names df = concat (map (\<lambda>n. filter (\<lambda>col. fst col = n) df) names)"

definition set_columns :: "string list \<Rightarrow> table \<Rightarrow> error + table" where
  \<comment> \<open>\<^verbatim>\<open>tmp.columns = names\<close>, which raises \<^verbatim>\<open>ValueError\<close> when the lengths differ\<close>
  "set_columns names tmp =
     (if length names \<noteq> length tmp then Inl ValueError else Inr (zip names (map snd tmp)))"

definition ensure_columns :: "table \<Rightarrow> error + table" where
  "ensure_columns df =
     (if ''sample_code'' \<in> set (map fst df) \<and> ''gpt_paragraph'' \<in> set (map fst df)
      then Inr (select_columns [''sample_code'', ''gpt_paragraph''] df)
      else
        (case map fst df of
           c0 # c1 # _ \<Rightarrow> set_columns [''sample_code'', ''gpt_paragraph''] (select_columns [c0, c1] df)
         | _ \<Rightarrow> Inl ValueError))"

definition column :: "string \<Rightarrow> table \<Rightarrow> string list" where
  \<comment> \<open>the cells of the column with this label\<close>
  "column name df = (case filter (\<lambda>col. fst col = name) df of [] \<Rightarrow> [] | col # _ \<Rightarrow> snd col)"

definition iterrows :: "table \<Rightarrow> (string \<times> string) list" where
  \<comment> \<open>the pairs \<^verbatim>\<open>(row["sample_code"], row["gpt_paragraph"])\<close> of \<^verbatim>\<open>df.iterrows()\<close>\<close>
  "iterrows df = zip (column ''sample_code'' df) (column ''gpt_paragraph'' df)"

fun build_mapping ::
  "(string \<times> string) list \<Rightarrow> (string \<rightharpoonup> string \<times> string) \<Rightarrow> (string \<rightharpoonup> string \<times> string)" where
  "build_mapping [] mapping = mapping"
| "build_mapping ((orig_code, paragraph) # rows) mapping =
     (let key = normalize_code orig_code
      in build_mapping rows
           (if mapping key = None then mapping(key \<mapsto> (orig_code, paragraph)) else mapping))"

fun lookup_loop ::
  "(string \<rightharpoonup> string \<times> string) \<Rightarrow> string list \<Rightarrow> (string \<times> string) list \<Rightarrow> string list
     \<Rightarrow> (string \<times> string) list \<times> string list" where
  "lookup_loop mapping [] output_rows missing = (output_rows, missing)"
| "lookup_loop mapping (code # codes) output_rows missing =
     (let key = normalize_code code
      in (case mapping key of
            Some row \<Rightarrow> lookup_loop mapping codes (output_rows @ [row]) missing
          | None \<Rightarrow> lookup_loop mapping codes output_rows (missing @ [code])))"

text \<open>
  \<^verbatim>\<open>rearrange_file\<close> on the table the loader returned: the rows written to the output file
  and the codes reported as not matched, or the error raised before anything is written.
\<close>

record reordered =
  written :: "(string \<times> string) list"
  unmatched :: "string list"

definition rearrange_file :: "table \<Rightarrow> string list \<Rightarrow> error + reordered" where
  "rearrange_file loaded desired_order =
     (case ensure_columns loaded of
        Inl e \<Rightarrow> Inl e
      | Inr df \<Rightarrow>
          (case lookup_loop (build_mapping (iterrows df) Map.empty) desired_order [] [] of
             (output_rows, missing) \<Rightarrow> Inr \<lparr>written = output_rows, unmatched = missing\<rparr>))"

section \<open>Auxiliary notions for the key normalisation\<close>


text \<open>\<^verbatim>\<open>str.endswith\<close>\<close>

definition endswith :: "string \<Rightarrow> string \<Rightarrow> bool" where
  "endswith s suffix = (length suffix \<le> length s \<and> drop (length s - length suffix) s = suffix)"

text \<open>
  The key normalisation as the specification words it, to be compared with
  \<open>normalize_code\<close>: trim, collapse the white space, strip a single trailing
  separator if one is present, lowercase.
\<close>

definition spec_strip_separator :: "string \<Rightarrow> string" where
  "spec_strip_separator s = (if endswith s ''/'' then butlast s else s)"

definition spec_normalize :: "string \<Rightarrow> string" where
  "spec_normalize code = lower (spec_strip_separator (multispace_sub (strip code)))"

section \<open>Auxiliary notions for the retries\<close>

text \<open>
  The world in which attempt number \<open>attempt + i\<close> of \<^verbatim>\<open>backoff_call\<close> begins, when the
  loop is at attempt number \<open>attempt\<close> in the world \<open>w\<close> and none of the next \<open>i\<close> attempts
  returns: each of them runs \<open>call_openai_merge\<close> and then sleeps \<^verbatim>\<open>2 ** attempt\<close>.
\<close>

fun world_before_attempt :: "string list \<Rightarrow> string \<Rightarrow> nat \<Rightarrow> nat \<Rightarrow> world \<Rightarrow> world" where
  "world_before_attempt sentences model attempt 0 w = w"
| "world_before_attempt sentences model attempt (Suc i) w =
     world_before_attempt sentences model (Suc attempt) i
       (time_sleep (2 ^ attempt) (snd (call_openai_merge sentences model w)))"

text \<open>
  Three worlds to run the retries in. In the first the credential is not set and the
  service would answer. In the second the credential is set; the first two chat requests
  time out, the third is answered, and the responses interface is down. In the third the
  credential is set and both interfaces always raise.
\<close>

definition keyless_world :: world where
  "keyless_world =
     \<lparr>api_key = None, openai_installed = True,
      chat_api = (\<lambda>t. ChatCompletion [Some ''merged'']),
      responses_api = (\<lambda>t. OutputText (Some ''merged'')), trace = []\<rparr>"

definition flaky_world :: world where
  "flaky_world =
     \<lparr>api_key = Some ''key'', openai_installed = True,
      chat_api = (\<lambda>t. if invocations t < 3 then ChatRaises ''timeout''
                       else ChatCompletion [Some '' merged '']),
      responses_api = (\<lambda>t. ResponsesRaises ''down''), trace = []\<rparr>"

definition dead_world :: world where
  "dead_world =
     \<lparr>api_key = Some ''key'', openai_installed = True,
      chat_api = (\<lambda>t. ChatRaises ''timeout''),
      responses_api = (\<lambda>t. ResponsesRaises ''down''), trace = []\<rparr>"

section \<open>Facts about trimming\<close>

lemma rtrim_last: "rev (dropWhile P (rev xs)) \<noteq> [] \<Longrightarrow> \<not> P (last (rev (dropWhile P (rev xs))))"
  by (simp add: last_rev hd_dropWhile)

lemma rtrim_hd: "rev (dropWhile P (rev xs)) \<noteq> [] \<Longrightarrow> hd (rev (dropWhile P (rev xs))) = hd xs"
  by (induction xs rule: rev_induct) (auto simp: hd_append)

lemma rtrim_id: "xs = [] \<or> \<not> P (last xs) \<Longrightarrow> rev (dropWhile P (rev xs)) = xs"
  by (cases xs rule: rev_cases) auto

lemma ltrim_id: "xs = [] \<or> \<not> P (hd xs) \<Longrightarrow> dropWhile P xs = xs"
  by (cases xs) auto

lemma strip_hd: "strip s \<noteq> [] \<Longrightarrow> \<not> isspace (hd (strip s))"
proof -
  assume ne: "strip s \<noteq> []"
  then have "hd (strip s) = hd (dropWhile isspace s)"
    unfolding strip_def rstrip_def lstrip_def by (rule rtrim_hd)
  moreover have "strip s = []" if "dropWhile isspace s = []"
    unfolding strip_def rstrip_def lstrip_def that by simp
  then have "dropWhile isspace s \<noteq> []"
    using ne by blast
  ultimately show ?thesis by (simp add: hd_dropWhile)
qed

lemma strip_last: "strip s \<noteq> [] \<Longrightarrow> \<not> isspace (last (strip s))"
  unfolding strip_def rstrip_def lstrip_def by (rule rtrim_last)

lemma strip_id: "s = [] \<or> (\<not> isspace (hd s) \<and> \<not> isspace (last s)) \<Longrightarrow> strip s = s"
  by (auto simp: strip_def rstrip_def lstrip_def rtrim_id ltrim_id)

lemma strip_strip: "strip (strip s) = strip s"
  by (rule strip_id) (use strip_hd strip_last in blast)

section \<open>The sentence collector\<close>

lemma collect_loop_eq:
  "collect_loop vs acc = acc @ filter (\<lambda>t. t \<noteq> []) (map strip vs)"
  by (induction vs arbitrary: acc) (simp_all add: Let_def)

lemma collect_sentences_eq:
  "collect_sentences series =
     concat (map (\<lambda>cell. case cell of None \<Rightarrow> [] | Some v \<Rightarrow> if strip v = [] then [] else [strip v]) series)"
  unfolding collect_sentences_def collect_loop_eq
  by (induction series rule: dropna.induct) simp_all

text \<open>
  Claim C8. For every column, \<open>collect_sentences\<close> returns, in row order, the trimmed
  value of each cell that is present and not empty after trimming: an absent cell and a
  cell that is empty after trimming contribute nothing. Every string returned is not
  empty, contains a character that is not white space, and is already trimmed.
\<close>

theorem collect_sentences_trimmed:
  "collect_sentences series =
     concat (map (\<lambda>cell. case cell of None \<Rightarrow> [] | Some v \<Rightarrow> if strip v = [] then [] else [strip v]) series)
   \<and> (\<forall>s \<in> set (collect_sentences series). s \<noteq> [] \<and> (\<exists>c \<in> set s. \<not> isspace c) \<and> strip s = s)"
proof (intro conjI ballI)
  show "collect_sentences series =
     concat (map (\<lambda>cell. case cell of None \<Rightarrow> [] | Some v \<Rightarrow> if strip v = [] then [] else [strip v]) series)"
    by (rule collect_sentences_eq)
next
  fix s assume "s \<in> set (collect_sentences series)"
  then obtain v where s: "s = strip v" and ne: "strip v \<noteq> []"
    by (auto simp: collect_sentences_eq split: option.splits if_splits)
  show "s \<noteq> []" using s ne by simp
  have "hd s \<in> set s" using s ne by simp
  moreover have "\<not> isspace (hd s)" using s ne strip_hd by simp
  ultimately show "\<exists>c \<in> set s. \<not> isspace c" by blast
  show "strip s = s" using s by (simp add: strip_strip)
qed

theorem collect_sentences_trimmed_witness:
  "collect_sentences [Some '' soft '', None, Some ''  '', Some ''warm''] = [''soft'', ''warm'']
   \<and> strip ''soft'' = ''soft'' \<and> strip ''warm'' = ''warm''
   \<and> (\<exists>c \<in> set ''soft''. \<not> isspace c)"
proof -
  have e: "collect_sentences [Some '' soft '', None, Some ''  '', Some ''warm''] = [''soft'', ''warm'']"
    by (simp add: collect_sentences_def strip_def lstrip_def rstrip_def isspace_def)
  show ?thesis
    using collect_sentences_trimmed [of "[Some '' soft '', None, Some ''  '', Some ''warm'']"]
    unfolding e by simp
qed

section \<open>The merge client\<close>

lemma sleeps_append: "sleeps (t @ u) = sleeps t @ sleeps u"
  by (induction t rule: sleeps.induct) simp_all

text \<open>
  Claim C9. For the empty sentence list \<open>call_openai_merge\<close> returns the empty string
  in every world, also one without the credential: nothing is raised, and the world is
  left as it was but for the record of the invocation, so no request is sent and nothing
  sleeps.
\<close>

theorem call_openai_merge_empty:
  "call_openai_merge [] model w = (Inr [], emit Invoked w)
   \<and> requests (trace (snd (call_openai_merge [] model w))) = requests (trace w)
   \<and> sleeps (trace (snd (call_openai_merge [] model w))) = sleeps (trace w)"
  by (simp add: call_openai_merge_def emit_def requests_def sleeps_append)

section \<open>The retries\<close>

text \<open>What one call and one sleep add to the trace.\<close>

lemma invocations_append: "invocations (t @ u) = invocations t + invocations u"
  by (simp add: invocations_def)

lemma requests_append: "requests (t @ u) = requests t @ requests u"
  by (simp add: requests_def)

lemma call_openai_merge_trace:
  "\<exists>u. trace (snd (call_openai_merge s m w)) = trace w @ Invoked # u
       \<and> sleeps u = [] \<and> invocations u = 0"
  by (auto simp: call_openai_merge_def emit_def Let_def invocations_def
      split: chat_reply.splits responses_reply.splits)

lemma call_openai_merge_sleeps:
  "sleeps (trace (snd (call_openai_merge s m w))) = sleeps (trace w)"
  using call_openai_merge_trace [of s m w] by (auto simp: sleeps_append)

lemma call_openai_merge_invocations:
  "invocations (trace (snd (call_openai_merge s m w))) = invocations (trace w) + 1"
  using call_openai_merge_trace [of s m w] by (auto simp: invocations_append invocations_def)

lemma time_sleep_trace: "trace (time_sleep n w) = trace w @ [Slept n]"
  by (simp add: time_sleep_def emit_def)

lemma world_before_attempt_sleeps:
  "sleeps (trace (world_before_attempt s m a i w)) = sleeps (trace w) @ map (\<lambda>j. 2 ^ j) [a..<a + i]"
proof (induction i arbitrary: a w)
  case 0
  show ?case by simp
next
  case (Suc i)
  have "[a..<a + Suc i] = a # [Suc a..<Suc a + i]"
    by (simp add: upt_rec [of a])
  then show ?case
    by (simp add: Suc.IH time_sleep_trace sleeps_append call_openai_merge_sleeps)
qed

lemma world_before_attempt_invocations:
  "invocations (trace (world_before_attempt s m a i w)) = invocations (trace w) + i"
proof (induction i arbitrary: a w)
  case 0
  show ?case by simp
next
  case (Suc i)
  show ?case
    by (simp add: Suc.IH time_sleep_trace invocations_append call_openai_merge_invocations)
      (simp add: invocations_def)
qed

lemma backoff_loop_succeeds:
  assumes "a + k < r"
    and "\<forall>i<k. isl (fst (call_openai_merge s m (world_before_attempt s m a i w)))"
    and "call_openai_merge s m (world_before_attempt s m a k w) = (Inr v, w')"
  shows "backoff_loop s m r [a..<r] w = (Inr v, w')"
  using assms
proof (induction k arbitrary: a w)
  case 0
  then have "[a..<r] = a # [Suc a..<r]" by (simp add: upt_rec [of a])
  with 0 show ?case by simp
next
  case (Suc k)
  from Suc.prems(1) have l: "[a..<r] = a # [Suc a..<r]" by (simp add: upt_rec [of a])
  from Suc.prems(2) have "isl (fst (call_openai_merge s m w))"
    by (metis world_before_attempt.simps(1) zero_less_Suc)
  then obtain e w1 where c: "call_openai_merge s m w = (Inl e, w1)"
    by (cases "call_openai_merge s m w"; cases "fst (call_openai_merge s m w)") auto
  have notlast: "int a \<noteq> int r - 1" using Suc.prems(1) by simp
  have "backoff_loop s m r [Suc a..<r] (time_sleep (2 ^ a) w1) = (Inr v, w')"
  proof (rule Suc.IH)
    show "Suc a + k < r" using Suc.prems(1) by simp
    show "\<forall>i<k. isl (fst (call_openai_merge s m
              (world_before_attempt s m (Suc a) i (time_sleep (2 ^ a) w1))))"
      using Suc.prems(2) c by (metis Suc_less_eq snd_conv world_before_attempt.simps(2))
    show "call_openai_merge s m (world_before_attempt s m (Suc a) k (time_sleep (2 ^ a) w1)) = (Inr v, w')"
      using Suc.prems(3) c by simp
  qed
  then show ?case unfolding l using c notlast by simp
qed

lemma backoff_loop_exhausted:
  assumes "a + k + 1 = r"
    and "\<forall>i\<le>k. isl (fst (call_openai_merge s m (world_before_attempt s m a i w)))"
  shows "backoff_loop s m r [a..<r] w = call_openai_merge s m (world_before_attempt s m a k w)"
  using assms
proof (induction k arbitrary: a w)
  case 0
  then have l: "[a..<r] = [a]" by (auto simp: upt_rec [of a])
  from 0 have "isl (fst (call_openai_merge s m w))" by simp
  then obtain e w1 where c: "call_openai_merge s m w = (Inl e, w1)"
    by (cases "call_openai_merge s m w"; cases "fst (call_openai_merge s m w)") auto
  have "int a = int r - 1" using 0 by simp
  then show ?case unfolding l using c by simp
next
  case (Suc k)
  from Suc.prems(1) have l: "[a..<r] = a # [Suc a..<r]" by (simp add: upt_rec [of a])
  from Suc.prems(2) have "isl (fst (call_openai_merge s m w))"
    by (metis world_before_attempt.simps(1) le0)
  then obtain e w1 where c: "call_openai_merge s m w = (Inl e, w1)"
    by (cases "call_openai_merge s m w"; cases "fst (call_openai_merge s m w)") auto
  have notlast: "int a \<noteq> int r - 1" using Suc.prems(1) by simp
  have "backoff_loop s m r [Suc a..<r] (time_sleep (2 ^ a) w1)
      = call_openai_merge s m (world_before_attempt s m (Suc a) k (time_sleep (2 ^ a) w1))"
  proof (rule Suc.IH)
    show "Suc a + k + 1 = r" using Suc.prems(1) by simp
    show "\<forall>i\<le>k. isl (fst (call_openai_merge s m
              (world_before_attempt s m (Suc a) i (time_sleep (2 ^ a) w1))))"
      using Suc.prems(2) c by (metis Suc_le_mono snd_conv world_before_attempt.simps(2))
  qed
  then show ?case unfolding l using c notlast by simp
qed


lemma sum_list_powers: "sum_list (map (\<lambda>i. 2 ^ i) [0..<k]) = (2::nat) ^ k - 1"
  by (induction k) simp_all

text \<open>
  Claim C3. With the five attempts of the default: if the first \<open>k < 5\<close> attempts of
  \<open>call_openai_merge\<close> fail and the next one returns \<open>v\<close>, then \<open>backoff_call\<close> returns \<open>v\<close>
  (in the world that attempt left), the call was entered exactly \<open>k + 1\<close> times, and the
  sleeps are \<open>2 ^ 0, \<dots>, 2 ^ (k - 1)\<close>, in this order, one after each failed attempt
  (\<open>2 ^ k - 1\<close> in all). If all five attempts fail, \<open>backoff_call\<close> is the outcome of the
  fifth attempt, error and world alike: its error is propagated unchanged, the call was
  entered five times, and the sleeps are 1, 2, 4, 8, none after the last attempt.
\<close>

theorem backoff_call_retries:
  "(k < 5
      \<and> (\<forall>i<k. isl (fst (call_openai_merge s m (world_before_attempt s m 0 i w))))
      \<and> call_openai_merge s m (world_before_attempt s m 0 k w) = (Inr v, w')
    \<longrightarrow> backoff_call s m 5 w = (Inr v, w')
        \<and> invocations (trace w') = invocations (trace w) + (k + 1)
        \<and> sleeps (trace w') = sleeps (trace w) @ map (\<lambda>i. 2 ^ i) [0..<k]
        \<and> sum_list (sleeps (trace w')) = sum_list (sleeps (trace w)) + (2 ^ k - 1))
   \<and> ((\<forall>i<5. isl (fst (call_openai_merge s m (world_before_attempt s m 0 i w))))
    \<longrightarrow> backoff_call s m 5 w = call_openai_merge s m (world_before_attempt s m 0 4 w)
        \<and> isl (fst (backoff_call s m 5 w))
        \<and> invocations (trace (snd (backoff_call s m 5 w))) = invocations (trace w) + 5
        \<and> sleeps (trace (snd (backoff_call s m 5 w))) = sleeps (trace w) @ [1, 2, 4, 8])"
proof (intro conjI impI)
  assume h: "k < 5
      \<and> (\<forall>i<k. isl (fst (call_openai_merge s m (world_before_attempt s m 0 i w))))
      \<and> call_openai_merge s m (world_before_attempt s m 0 k w) = (Inr v, w')"
  let ?wk = "world_before_attempt s m 0 k w"
  have w': "w' = snd (call_openai_merge s m ?wk)" using h by simp
  show "backoff_call s m 5 w = (Inr v, w')"
    unfolding backoff_call_def using h by (intro backoff_loop_succeeds [of 0 k]) auto
  show "invocations (trace w') = invocations (trace w) + (k + 1)"
    unfolding w' by (simp add: call_openai_merge_invocations world_before_attempt_invocations)
  show sl: "sleeps (trace w') = sleeps (trace w) @ map (\<lambda>i. 2 ^ i) [0..<k]"
    unfolding w' by (simp add: call_openai_merge_sleeps world_before_attempt_sleeps)
  show "sum_list (sleeps (trace w')) = sum_list (sleeps (trace w)) + (2 ^ k - 1)"
    unfolding sl by (simp add: sum_list_powers)
next
  assume h: "\<forall>i<5. isl (fst (call_openai_merge s m (world_before_attempt s m 0 i w)))"
  let ?w4 = "world_before_attempt s m 0 4 w"
  show r: "backoff_call s m 5 w = call_openai_merge s m ?w4"
    unfolding backoff_call_def using h by (intro backoff_loop_exhausted [of 0 4]) auto
  show "isl (fst (backoff_call s m 5 w))" unfolding r using h by simp
  show "invocations (trace (snd (backoff_call s m 5 w))) = invocations (trace w) + 5"
    unfolding r by (simp add: call_openai_merge_invocations world_before_attempt_invocations)
  have "[0..<4] = [0, 1, 2, 3::nat]" by (simp add: upt_rec)
  then show "sleeps (trace (snd (backoff_call s m 5 w))) = sleeps (trace w) @ [1, 2, 4, 8]"
    unfolding r by (simp add: call_openai_merge_sleeps world_before_attempt_sleeps)
qed

text \<open>The three example worlds keep their settings and their service through the attempts.\<close>

lemma call_openai_merge_fields:
  "api_key (snd (call_openai_merge s m w)) = api_key w
   \<and> openai_installed (snd (call_openai_merge s m w)) = openai_installed w
   \<and> chat_api (snd (call_openai_merge s m w)) = chat_api w
   \<and> responses_api (snd (call_openai_merge s m w)) = responses_api w"
  by (simp add: call_openai_merge_def emit_def Let_def
      split: chat_reply.splits responses_reply.splits)

lemma world_before_attempt_fields:
  "api_key (world_before_attempt s m a i w) = api_key w
   \<and> openai_installed (world_before_attempt s m a i w) = openai_installed w
   \<and> chat_api (world_before_attempt s m a i w) = chat_api w
   \<and> responses_api (world_before_attempt s m a i w) = responses_api w"
proof (induction i arbitrary: a w)
  case 0
  show ?case by simp
next
  case (Suc i)
  show ?case
    by (simp add: Suc.IH call_openai_merge_fields) (simp add: time_sleep_def emit_def call_openai_merge_fields)
qed

lemma call_openai_merge_both_raise:
  assumes "s \<noteq> []" "api_key w = Some (c # cs)" "openai_installed w"
    and "chat_api w (trace w @ [Invoked, ChatRequest m (user_content_of s)]) = ChatRaises e"
    and "responses_api w (trace w @ [Invoked, ChatRequest m (user_content_of s),
            ResponsesRequest m (user_content_of s)]) = ResponsesRaises e'"
  shows "fst (call_openai_merge s m w) = Inl (RuntimeError (responses_failure_prefix @ e'))"
  using assms by (simp add: call_openai_merge_def emit_def Let_def or_empty_def)

lemma call_openai_merge_chat_answers:
  assumes "s \<noteq> []" "api_key w = Some (c # cs)" "openai_installed w"
    and "chat_api w (trace w @ [Invoked, ChatRequest m (user_content_of s)]) = ChatCompletion choices"
  shows "fst (call_openai_merge s m w) = Inr (chat_content choices)"
  using assms by (simp add: call_openai_merge_def emit_def Let_def or_empty_def)

lemma flaky_world_attempt:
  "fst (call_openai_merge [''soft''] m (world_before_attempt [''soft''] m 0 i flaky_world))
     = (if i < 2 then Inl (RuntimeError (responses_failure_prefix @ ''down''))
        else Inr ''merged'')"
proof -
  let ?w = "world_before_attempt [''soft''] m 0 i flaky_world"
  let ?t = "trace ?w @ [Invoked, ChatRequest m (user_content_of [''soft''])]"
  have f: "api_key ?w = Some ''key''" "openai_installed ?w"
    "chat_api ?w = chat_api flaky_world" "responses_api ?w = responses_api flaky_world"
    by (simp_all add: world_before_attempt_fields) (simp_all add: flaky_world_def)
  have n: "invocations ?t = i + 1"
    by (simp add: invocations_append world_before_attempt_invocations)
      (simp add: invocations_def flaky_world_def)
  have m: "chat_content [Some '' merged ''] = ''merged''"
    by (simp add: chat_content_def or_empty_def strip_def lstrip_def rstrip_def isspace_def)
  show ?thesis
  proof (cases "i < 2")
    case True
    have "chat_api ?w ?t = ChatRaises ''timeout''"
      unfolding f(3) using True n by (simp add: flaky_world_def)
    moreover have "responses_api ?w (?t @ [ResponsesRequest m (user_content_of [''soft''])])
        = ResponsesRaises ''down''"
      unfolding f(4) by (simp add: flaky_world_def)
    ultimately show ?thesis
      using True call_openai_merge_both_raise [of "[''soft'']" ?w "CHR ''k''" "''ey''" m "''timeout''" "''down''"] f(1,2)
      by simp
  next
    case False
    have "chat_api ?w ?t = ChatCompletion [Some '' merged '']"
      unfolding f(3) using False n by (simp add: flaky_world_def)
    then show ?thesis
      using False call_openai_merge_chat_answers [of "[''soft'']" ?w "CHR ''k''" "''ey''" m "[Some '' merged '']"] f(1,2) m
      by simp
  qed
qed

lemma dead_world_attempt:
  "fst (call_openai_merge [''soft''] m (world_before_attempt [''soft''] m 0 i dead_world))
     = Inl (RuntimeError (responses_failure_prefix @ ''down''))"
proof -
  let ?w = "world_before_attempt [''soft''] m 0 i dead_world"
  have f: "api_key ?w = Some ''key''" "openai_installed ?w"
    "chat_api ?w = chat_api dead_world" "responses_api ?w = responses_api dead_world"
    by (simp_all add: world_before_attempt_fields) (simp_all add: dead_world_def)
  show ?thesis
    using call_openai_merge_both_raise [of "[''soft'']" ?w "CHR ''k''" "''ey''" m "''timeout''" "''down''"] f(1,2)
    unfolding f(3,4) by (simp add: dead_world_def)
qed

text \<open>
  In the second example world the third attempt succeeds after sleeps of 1 and 2; in the
  third all five attempts fail, and the error of the responses interface is propagated
  after sleeps of 1, 2, 4 and 8.
\<close>

theorem backoff_call_retries_witness:
  "fst (backoff_call [''soft''] ''gpt-5.1'' 5 flaky_world) = Inr ''merged''
   \<and> invocations (trace (snd (backoff_call [''soft''] ''gpt-5.1'' 5 flaky_world))) = 3
   \<and> sleeps (trace (snd (backoff_call [''soft''] ''gpt-5.1'' 5 flaky_world))) = [1, 2]
   \<and> fst (backoff_call [''soft''] ''gpt-5.1'' 5 dead_world)
       = Inl (RuntimeError (responses_failure_prefix @ ''down''))
   \<and> invocations (trace (snd (backoff_call [''soft''] ''gpt-5.1'' 5 dead_world))) = 5
   \<and> sleeps (trace (snd (backoff_call [''soft''] ''gpt-5.1'' 5 dead_world))) = [1, 2, 4, 8]"
proof -
  let ?s = "[''soft'']" and ?m = "''gpt-5.1''"
  define w' where "w' = snd (call_openai_merge ?s ?m (world_before_attempt ?s ?m 0 2 flaky_world))"
  have t0: "trace flaky_world = []" "trace dead_world = []"
    by (simp_all add: flaky_world_def dead_world_def)
  have lt: "(2::nat) < 5" by simp
  have fails: "\<forall>i<2. isl (fst (call_openai_merge ?s ?m (world_before_attempt ?s ?m 0 i flaky_world)))"
    by (simp add: flaky_world_attempt)
  have ok: "call_openai_merge ?s ?m (world_before_attempt ?s ?m 0 2 flaky_world) = (Inr ''merged'', w')"
    unfolding w'_def using flaky_world_attempt [of ?m 2] by (simp add: prod_eq_iff)
  note c1 = backoff_call_retries [of 2 ?s ?m flaky_world "''merged''" w',
      THEN conjunct1, THEN mp, OF conjI [OF lt conjI [OF fails ok]]]
  have l2: "[0..<2] = [0, 1::nat]" by (simp add: upt_rec)
  have first: "fst (backoff_call ?s ?m 5 flaky_world) = Inr ''merged''
      \<and> invocations (trace (snd (backoff_call ?s ?m 5 flaky_world))) = 3
      \<and> sleeps (trace (snd (backoff_call ?s ?m 5 flaky_world))) = [1, 2]"
    using c1 by (simp add: t0 l2 invocations_def)
  have dead: "\<forall>i<5. isl (fst (call_openai_merge ?s ?m (world_before_attempt ?s ?m 0 i dead_world)))"
    by (simp add: dead_world_attempt)
  note c2 = backoff_call_retries [of 0 ?s ?m dead_world, THEN conjunct2, THEN mp, OF dead]
  have second: "fst (backoff_call ?s ?m 5 dead_world)
       = Inl (RuntimeError (responses_failure_prefix @ ''down''))
      \<and> invocations (trace (snd (backoff_call ?s ?m 5 dead_world))) = 5
      \<and> sleeps (trace (snd (backoff_call ?s ?m 5 dead_world))) = [1, 2, 4, 8]"
  proof -
    from c2 have e: "backoff_call ?s ?m 5 dead_world
        = call_openai_merge ?s ?m (world_before_attempt ?s ?m 0 4 dead_world)"
      and i: "invocations (trace (snd (backoff_call ?s ?m 5 dead_world)))
        = invocations (trace dead_world) + 5"
      and sl: "sleeps (trace (snd (backoff_call ?s ?m 5 dead_world)))
        = sleeps (trace dead_world) @ [1, 2, 4, 8]"
      by blast+
    have "fst (backoff_call ?s ?m 5 dead_world)
        = Inl (RuntimeError (responses_failure_prefix @ ''down''))"
      unfolding e by (rule dead_world_attempt)
    moreover have "invocations (trace (snd (backoff_call ?s ?m 5 dead_world))) = 5"
      unfolding i t0 by (simp add: invocations_def)
    moreover have "sleeps (trace (snd (backoff_call ?s ?m 5 dead_world))) = [1, 2, 4, 8]"
      unfolding sl t0 by simp
    ultimately show ?thesis by blast
  qed
  from first second show ?thesis by simp
qed

text \<open>Without the credential every attempt fails in the same way, and sends nothing.\<close>

lemma call_openai_merge_keyless:
  "sentences \<noteq> [] \<Longrightarrow> or_empty (api_key w) = [] \<Longrightarrow>
     call_openai_merge sentences model w = (Inl EnvironmentError, emit Invoked w)"
  by (simp add: call_openai_merge_def emit_def Let_def)

lemma world_before_attempt_keyless:
  assumes "sentences \<noteq> []" "or_empty (api_key w) = []"
  shows "or_empty (api_key (world_before_attempt sentences model a i w)) = []
    \<and> requests (trace (world_before_attempt sentences model a i w)) = requests (trace w)"
  using assms(2)
proof (induction i arbitrary: a w)
  case 0
  then show ?case by simp
next
  case (Suc i)
  let ?w1 = "time_sleep (2 ^ a) (emit Invoked w)"
  have "or_empty (api_key ?w1) = []" using Suc.prems by (simp add: time_sleep_def emit_def)
  then have "or_empty (api_key (world_before_attempt sentences model (Suc a) i ?w1)) = []
    \<and> requests (trace (world_before_attempt sentences model (Suc a) i ?w1)) = requests (trace ?w1)"
    by (rule Suc.IH)
  moreover have "requests (trace ?w1) = requests (trace w)"
    by (simp add: time_sleep_def emit_def requests_def)
  ultimately show ?case
    using call_openai_merge_keyless [OF assms(1) Suc.prems, of model] by simp
qed

lemma backoff_call_keyless:
  assumes "sentences \<noteq> []" "or_empty (api_key w) = []"
  shows "fst (backoff_call sentences model 5 w) = Inl EnvironmentError"
    and "requests (trace (snd (backoff_call sentences model 5 w))) = requests (trace w)"
    and "invocations (trace (snd (backoff_call sentences model 5 w))) = invocations (trace w) + 5"
    and "sleeps (trace (snd (backoff_call sentences model 5 w))) = sleeps (trace w) @ [1, 2, 4, 8]"
proof -
  let ?wb = "\<lambda>i. world_before_attempt sentences model 0 i w"
  have k: "or_empty (api_key (?wb i)) = []" "requests (trace (?wb i)) = requests (trace w)" for i
    using world_before_attempt_keyless [OF assms] by simp_all
  have c: "call_openai_merge sentences model (?wb i) = (Inl EnvironmentError, emit Invoked (?wb i))" for i
    using assms(1) k(1) by (rule call_openai_merge_keyless)
  have r: "backoff_call sentences model 5 w = call_openai_merge sentences model (?wb 4)"
    unfolding backoff_call_def by (intro backoff_loop_exhausted [of 0 4]) (simp_all add: c)
  show "fst (backoff_call sentences model 5 w) = Inl EnvironmentError"
    unfolding r by (simp add: c)
  show "requests (trace (snd (backoff_call sentences model 5 w))) = requests (trace w)"
    unfolding r by (simp add: c emit_def requests_append k(2)) (simp add: requests_def)
  show "invocations (trace (snd (backoff_call sentences model 5 w))) = invocations (trace w) + 5"
    unfolding r by (simp add: call_openai_merge_invocations world_before_attempt_invocations)
  have "[0..<4] = [0, 1, 2, 3::nat]" by (simp add: upt_rec)
  then show "sleeps (trace (snd (backoff_call sentences model 5 w))) = sleeps (trace w) @ [1, 2, 4, 8]"
    unfolding r by (simp add: call_openai_merge_sleeps world_before_attempt_sleeps)
qed

text \<open>
  Claim C4, as stated, fails. \<^verbatim>\<open>backoff_call\<close> catches every \<^verbatim>\<open>Exception\<close>, the
  \<^verbatim>\<open>EnvironmentError\<close> of the missing credential included: in a world without the
  credential a single sentence makes it enter \<open>call_openai_merge\<close> five times, not once,
  and sleep 1, 2, 4 and 8 in between, before the error is raised.
\<close>

theorem missing_credential_is_retried:
  "fst (backoff_call [''soft''] ''gpt-5.1'' 5 keyless_world) = Inl EnvironmentError
   \<and> invocations (trace (snd (backoff_call [''soft''] ''gpt-5.1'' 5 keyless_world))) = 5
   \<and> sleeps (trace (snd (backoff_call [''soft''] ''gpt-5.1'' 5 keyless_world))) = [1, 2, 4, 8]
   \<and> invocations (trace (snd (backoff_call [''soft''] ''gpt-5.1'' 5 keyless_world))) \<noteq> 1
   \<and> sleeps (trace (snd (backoff_call [''soft''] ''gpt-5.1'' 5 keyless_world))) \<noteq> []"
proof -
  have k: "[''soft''] \<noteq> []" "or_empty (api_key keyless_world) = []" "trace keyless_world = []"
    by (simp_all add: keyless_world_def or_empty_def)
  show ?thesis
    using backoff_call_keyless [OF k(1,2), of "''gpt-5.1''"]
    by (simp add: k(3) invocations_def)
qed

text \<open>
  Claim C4, amended. For a non-empty sentence list, when the credential is unset or
  empty, \<open>call_openai_merge\<close> raises the credential error at once, having sent no request;
  through \<open>backoff_call\<close> the credential error is what is raised in the end and no request
  is ever sent, but the call is retried like any other failure: five invocations, with
  sleeps of 1, 2, 4 and 8.
\<close>

theorem backoff_call_missing_credential:
  "sentences \<noteq> [] \<and> or_empty (api_key w) = [] \<longrightarrow>
     call_openai_merge sentences model w = (Inl EnvironmentError, emit Invoked w)
     \<and> fst (backoff_call sentences model 5 w) = Inl EnvironmentError
     \<and> requests (trace (snd (backoff_call sentences model 5 w))) = requests (trace w)
     \<and> invocations (trace (snd (backoff_call sentences model 5 w))) = invocations (trace w) + 5
     \<and> sleeps (trace (snd (backoff_call sentences model 5 w))) = sleeps (trace w) @ [1, 2, 4, 8]"
proof (intro impI)
  assume "sentences \<noteq> [] \<and> or_empty (api_key w) = []"
  then have n: "sentences \<noteq> []" and k: "or_empty (api_key w) = []" by blast+
  from call_openai_merge_keyless [OF n k, of model] backoff_call_keyless [OF n k, of model]
  show "call_openai_merge sentences model w = (Inl EnvironmentError, emit Invoked w)
     \<and> fst (backoff_call sentences model 5 w) = Inl EnvironmentError
     \<and> requests (trace (snd (backoff_call sentences model 5 w))) = requests (trace w)
     \<and> invocations (trace (snd (backoff_call sentences model 5 w))) = invocations (trace w) + 5
     \<and> sleeps (trace (snd (backoff_call sentences model 5 w))) = sleeps (trace w) @ [1, 2, 4, 8]"
    by (intro conjI)
qed

theorem backoff_call_missing_credential_witness:
  "call_openai_merge [''soft'', ''warm''] ''gpt-5.1'' (keyless_world\<lparr>api_key := Some []\<rparr>)
     = (Inl EnvironmentError, emit Invoked (keyless_world\<lparr>api_key := Some []\<rparr>))
   \<and> fst (backoff_call [''soft'', ''warm''] ''gpt-5.1'' 5 (keyless_world\<lparr>api_key := Some []\<rparr>))
     = Inl EnvironmentError
   \<and> requests (trace (snd (backoff_call [''soft'', ''warm''] ''gpt-5.1'' 5
        (keyless_world\<lparr>api_key := Some []\<rparr>)))) = []
   \<and> invocations (trace (snd (backoff_call [''soft'', ''warm''] ''gpt-5.1'' 5
        (keyless_world\<lparr>api_key := Some []\<rparr>)))) = 5
   \<and> sleeps (trace (snd (backoff_call [''soft'', ''warm''] ''gpt-5.1'' 5
        (keyless_world\<lparr>api_key := Some []\<rparr>)))) = [1, 2, 4, 8]"
proof -
  let ?w = "keyless_world\<lparr>api_key := Some []\<rparr>"
  have h: "[''soft'', ''warm''] \<noteq> [] \<and> or_empty (api_key ?w) = []"
    by (simp add: or_empty_def)
  have t: "requests (trace ?w) = []" "invocations (trace ?w) = 0" "sleeps (trace ?w) = []"
    by (simp_all add: keyless_world_def requests_def invocations_def)
  note c = backoff_call_missing_credential
    [of "[''soft'', ''warm'']" ?w "''gpt-5.1''", THEN mp, OF h, unfolded t]
  from c show ?thesis by simp
qed

section \<open>The reorder stage: columns, first occurrence, canonical order\<close>

lemma build_mapping_find:
  "build_mapping rows m k =
     (case m k of Some v \<Rightarrow> Some v | None \<Rightarrow> find (\<lambda>r. normalize_code (fst r) = k) rows)"
proof (induction rows arbitrary: m)
  case Nil
  show ?case by (simp split: option.split)
next
  case (Cons row rows)
  obtain c p where row: "row = (c, p)" by (cases row)
  show ?case
    unfolding row by (simp add: Cons.IH Let_def split: option.split)
qed

lemma lookup_loop_eq:
  "lookup_loop m codes out miss =
     (out @ concat (map (\<lambda>c. case m (normalize_code c) of Some r \<Rightarrow> [r] | None \<Rightarrow> []) codes),
      miss @ filter (\<lambda>c. m (normalize_code c) = None) codes)"
  by (induction codes arbitrary: out miss) (simp_all add: Let_def split: option.split)

lemma find_first_index:
  assumes "i < length xs" "P (xs ! i)" "\<forall>j<i. \<not> P (xs ! j)"
  shows "find P xs = Some (xs ! i)"
  using assms
proof (induction xs arbitrary: i)
  case Nil
  then show ?case by simp
next
  case (Cons x xs)
  show ?case
  proof (cases i)
    case 0
    with Cons.prems show ?thesis by simp
  next
    case (Suc n)
    from Cons.prems Suc have "\<not> P x" by auto
    moreover have "find P xs = Some (xs ! n)"
    proof (rule Cons.IH)
      show "n < length xs" using Cons.prems Suc by simp
      show "P (xs ! n)" using Cons.prems Suc by simp
      show "\<forall>j<n. \<not> P (xs ! j)" using Cons.prems(3) Suc by auto
    qed
    ultimately show ?thesis using Suc by simp
  qed
qed

lemma find_in_set: "find P xs = Some x \<Longrightarrow> x \<in> set xs \<and> P x"
  by (induction xs) (auto split: if_splits)

lemma rearrange_file_eq:
  assumes "ensure_columns loaded = Inr df"
  shows "rearrange_file loaded desired_order =
     Inr \<lparr>written = concat (map (\<lambda>c. case find (\<lambda>r. normalize_code (fst r) = normalize_code c) (iterrows df) of
                                       Some r \<Rightarrow> [r] | None \<Rightarrow> []) desired_order),
          unmatched = filter (\<lambda>c. find (\<lambda>r. normalize_code (fst r) = normalize_code c) (iterrows df) = None) desired_order\<rparr>"
  using assms by (simp add: rearrange_file_def lookup_loop_eq build_mapping_find)

lemma example_table:
  "ensure_columns [(''sample_code'', [''a'', ''B'']), (''gpt_paragraph'', [''x'', ''y''])]
     = Inr [(''sample_code'', [''a'', ''B'']), (''gpt_paragraph'', [''x'', ''y''])]"
  by (simp add: ensure_columns_def select_columns_def)

lemma normalize_code_examples:
  "normalize_code ''a'' = ''a''" "normalize_code ''B'' = ''b''" "normalize_code ''A'' = ''a''"
  "normalize_code ''b '' = ''b''" "normalize_code ''C'' = ''c''"
  by code_simp+

text \<open>
  Claim C1. Whenever the loaded table passes \<open>ensure_columns\<close>, \<open>rearrange_file\<close>
  writes, for each code of the canonical order in list order, the first row of the
  table whose normalised code equals the normalised canonical code, and nothing for a
  code without such a row; the codes without such a row are reported, in list order.
  Every row written is a row of the table, so its code is spelt as in the table. For the
  order A, "b ", C and the rows (a, x), (B, y) the rows written are (a, x), (B, y) and the
  code reported is C.
\<close>

theorem rearrange_file_canonical_order:
  "(ensure_columns loaded = Inr df \<longrightarrow>
      (\<exists>res. rearrange_file loaded desired_order = Inr res
         \<and> written res =
             concat (map (\<lambda>c. case find (\<lambda>r. normalize_code (fst r) = normalize_code c) (iterrows df) of
                                 Some r \<Rightarrow> [r] | None \<Rightarrow> []) desired_order)
         \<and> unmatched res =
             filter (\<lambda>c. normalize_code c \<notin> set (map (\<lambda>r. normalize_code (fst r)) (iterrows df))) desired_order
         \<and> set (written res) \<subseteq> set (iterrows df)))
   \<and> rearrange_file [(''sample_code'', [''a'', ''B'']), (''gpt_paragraph'', [''x'', ''y''])] [''A'', ''b '', ''C'']
       = Inr \<lparr>written = [(''a'', ''x''), (''B'', ''y'')], unmatched = [''C'']\<rparr>"
proof (intro conjI impI)
  assume ok: "ensure_columns loaded = Inr df"
  let ?hit = "\<lambda>c. find (\<lambda>r. normalize_code (fst r) = normalize_code c) (iterrows df)"
  let ?res = "\<lparr>written = concat (map (\<lambda>c. case ?hit c of Some r \<Rightarrow> [r] | None \<Rightarrow> []) desired_order),
               unmatched = filter (\<lambda>c. ?hit c = None) desired_order\<rparr>"
  have none: "(?hit c = None) = (normalize_code c \<notin> set (map (\<lambda>r. normalize_code (fst r)) (iterrows df)))" for c
    by (fastforce simp: find_None_iff image_iff)
  have sub: "set (written ?res) \<subseteq> set (iterrows df)"
    by (auto split: option.splits dest: find_in_set [OF sym])
  have "rearrange_file loaded desired_order = Inr ?res"
    using ok by (rule rearrange_file_eq)
  moreover have "unmatched ?res =
      filter (\<lambda>c. normalize_code c \<notin> set (map (\<lambda>r. normalize_code (fst r)) (iterrows df))) desired_order"
    by (simp add: none)
  ultimately show "\<exists>res. rearrange_file loaded desired_order = Inr res
         \<and> written res =
             concat (map (\<lambda>c. case find (\<lambda>r. normalize_code (fst r) = normalize_code c) (iterrows df) of
                                 Some r \<Rightarrow> [r] | None \<Rightarrow> []) desired_order)
         \<and> unmatched res =
             filter (\<lambda>c. normalize_code c \<notin> set (map (\<lambda>r. normalize_code (fst r)) (iterrows df))) desired_order
         \<and> set (written res) \<subseteq> set (iterrows df)"
    using sub by (intro exI [of _ ?res]) simp
next
  show "rearrange_file [(''sample_code'', [''a'', ''B'']), (''gpt_paragraph'', [''x'', ''y''])] [''A'', ''b '', ''C'']
       = Inr \<lparr>written = [(''a'', ''x''), (''B'', ''y'')], unmatched = [''C'']\<rparr>"
    by (simp add: rearrange_file_eq [OF example_table] iterrows_def column_def normalize_code_examples)
qed

theorem rearrange_file_canonical_order_witness:
  "ensure_columns [(''code'', [''Zirconia'', ''pink '']), (''text'', [''p'', ''q''])]
     = Inr [(''sample_code'', [''Zirconia'', ''pink '']), (''gpt_paragraph'', [''p'', ''q''])]
   \<and> (\<exists>res. rearrange_file [(''code'', [''Zirconia'', ''pink '']), (''text'', [''p'', ''q''])] [''PINK'', ''117'', ''zirconia/'']
               = Inr res
         \<and> written res = [(''pink '', ''q''), (''Zirconia'', ''p'')]
         \<and> unmatched res = [''117''])"
proof -
  let ?loaded = "[(''code'', [''Zirconia'', ''pink '']), (''text'', [''p'', ''q''])]"
  let ?df = "[(''sample_code'', [''Zirconia'', ''pink '']), (''gpt_paragraph'', [''p'', ''q''])]"
  have ok: "ensure_columns ?loaded = Inr ?df"
    by (simp add: ensure_columns_def select_columns_def set_columns_def)
  have n: "normalize_code ''Zirconia'' = ''zirconia''" "normalize_code ''pink '' = ''pink''"
    "normalize_code ''PINK'' = ''pink''" "normalize_code ''117'' = ''117''"
    "normalize_code ''zirconia/'' = ''zirconia''" 
    by code_simp+
  have rows: "iterrows ?df = [(''Zirconia'', ''p''), (''pink '', ''q'')]"
    by (simp add: iterrows_def column_def)
  from rearrange_file_canonical_order [of ?loaded ?df "[''PINK'', ''117'', ''zirconia/'']"] ok
  have "\<exists>res. rearrange_file ?loaded [''PINK'', ''117'', ''zirconia/''] = Inr res
         \<and> written res = [(''pink '', ''q''), (''Zirconia'', ''p'')]
         \<and> unmatched res = [''117'']
         \<and> set (written res) \<subseteq> set [(''Zirconia'', ''p''), (''pink '', ''q'')]"
    unfolding rows by (simp add: n)
  then show ?thesis using ok by blast
qed


text \<open>
  Claim C2. If row \<open>i\<close> of the table is the first whose code normalises to \<open>k\<close>,
  the mapping holds that row under \<open>k\<close>, every row written whose code normalises to
  \<open>k\<close> is that row, and that row is written whenever the canonical order has a code
  normalising to \<open>k\<close>: a later row with the same normalised code is never used.
\<close>

theorem first_occurrence_wins:
  assumes "ensure_columns loaded = Inr df"
    and "i < length (iterrows df)"
    and "normalize_code (fst (iterrows df ! i)) = k"
    and "\<forall>j<i. normalize_code (fst (iterrows df ! j)) \<noteq> k"
  shows "build_mapping (iterrows df) Map.empty k = Some (iterrows df ! i)
    \<and> (\<exists>res. rearrange_file loaded desired_order = Inr res
          \<and> (\<forall>r \<in> set (written res). normalize_code (fst r) = k \<longrightarrow> r = iterrows df ! i)
          \<and> (\<forall>c \<in> set desired_order. normalize_code c = k \<longrightarrow> iterrows df ! i \<in> set (written res)))"
proof -
  let ?rows = "iterrows df"
  let ?hit = "\<lambda>c. find (\<lambda>r. normalize_code (fst r) = normalize_code c) ?rows"
  let ?res = "\<lparr>written = concat (map (\<lambda>c. case ?hit c of Some r \<Rightarrow> [r] | None \<Rightarrow> []) desired_order),
               unmatched = filter (\<lambda>c. ?hit c = None) desired_order\<rparr>"
  have first: "find (\<lambda>r. normalize_code (fst r) = k) ?rows = Some (?rows ! i)"
    using assms(2-4) by (intro find_first_index) auto
  have m: "build_mapping ?rows Map.empty k = Some (?rows ! i)"
    by (simp add: build_mapping_find first)
  have res: "rearrange_file loaded desired_order = Inr ?res"
    using assms(1) by (rule rearrange_file_eq)
  have only: "r = ?rows ! i" if "r \<in> set (written ?res)" "normalize_code (fst r) = k" for r
  proof -
    from that(1) obtain c where "?hit c = Some r"
      by (auto split: option.splits)
    moreover from this have "normalize_code (fst r) = normalize_code c"
      by (auto dest: find_in_set)
    ultimately show ?thesis using first that(2) by simp
  qed
  have emitted: "?rows ! i \<in> set (written ?res)" if "c \<in> set desired_order" "normalize_code c = k" for c
  proof -
    have "?hit c = Some (?rows ! i)" using first that(2) by simp
    then have "?rows ! i \<in> set (case ?hit c of Some r \<Rightarrow> [r] | None \<Rightarrow> [])" by simp
    with that(1) show ?thesis by (simp del: set_concat add: set_concat) blast
  qed
  from m res only emitted show ?thesis by blast
qed

theorem first_occurrence_wins_witness:
  "build_mapping [(''Pink'', ''first''), (''pink '', ''second'')] Map.empty ''pink'' = Some (''Pink'', ''first'')
   \<and> (\<exists>res. rearrange_file [(''sample_code'', [''Pink'', ''pink '']), (''gpt_paragraph'', [''first'', ''second''])]
                 [''PINK''] = Inr res
          \<and> (\<forall>r \<in> set (written res). normalize_code (fst r) = ''pink'' \<longrightarrow> r = (''Pink'', ''first''))
          \<and> (''Pink'', ''first'') \<in> set (written res))"
proof -
  let ?loaded = "[(''sample_code'', [''Pink'', ''pink '']), (''gpt_paragraph'', [''first'', ''second''])]"
  have ok: "ensure_columns ?loaded = Inr ?loaded"
    by (simp add: ensure_columns_def select_columns_def)
  have rows: "iterrows ?loaded = [(''Pink'', ''first''), (''pink '', ''second'')]"
    by (simp add: iterrows_def column_def)
  have n: "normalize_code ''Pink'' = ''pink''" "normalize_code ''PINK'' = ''pink''"
    by code_simp+
  have "build_mapping (iterrows ?loaded) Map.empty ''pink'' = Some (iterrows ?loaded ! 0)
    \<and> (\<exists>res. rearrange_file ?loaded [''PINK''] = Inr res
          \<and> (\<forall>r \<in> set (written res). normalize_code (fst r) = ''pink'' \<longrightarrow> r = iterrows ?loaded ! 0)
          \<and> (\<forall>c \<in> set [''PINK'']. normalize_code c = ''pink'' \<longrightarrow> iterrows ?loaded ! 0 \<in> set (written res)))"
    by (rule first_occurrence_wins [OF ok]) (simp_all add: rows n)
  then show ?thesis unfolding rows by (simp add: n)
qed

lemma filter_label_distinct:
  "distinct (map fst df) \<Longrightarrow> (n, cs) \<in> set df \<Longrightarrow> filter (\<lambda>col. fst col = n) df = [(n, cs)]"
proof (induction df)
  case Nil
  then show ?case by simp
next
  case (Cons col df)
  show ?case
  proof (cases "col = (n, cs)")
    case True
    with Cons.prems have "n \<notin> fst ` set df" by simp
    then have "filter (\<lambda>col. fst col = n) df = []"
      by (auto simp: filter_empty_conv)
    with True show ?thesis by simp
  next
    case False
    with Cons.prems have in_df: "(n, cs) \<in> set df" by simp
    then have "n \<in> fst ` set df" by force
    with Cons.prems have "fst col \<noteq> n" by auto
    with Cons.IH Cons.prems in_df show ?thesis by simp
  qed
qed

lemma ensure_columns_short: "length df < 2 \<Longrightarrow> ensure_columns df = Inl ValueError"
proof (cases df)
  case Nil
  then show ?thesis by (simp add: ensure_columns_def)
next
  case (Cons col rest)
  assume "length df < 2"
  with Cons have "rest = []" by simp
  with Cons show ?thesis by (cases col) (auto simp: ensure_columns_def)
qed

text \<open>
  Claim C10. For a loaded table (its labels are pairwise distinct): when it has the
  columns sample\_code and gpt\_paragraph, exactly these two are selected, in this
  order; otherwise, when it has at least two columns, its first and second column are
  used under these two labels; with fewer than two columns \<open>ensure_columns\<close> raises
  \<open>ValueError\<close> and \<open>rearrange_file\<close> ends with that error, so nothing is written.
\<close>

theorem ensure_columns_selection:
  assumes "distinct (map fst loaded)"
  shows "((''sample_code'', codes) \<in> set loaded \<and> (''gpt_paragraph'', paragraphs) \<in> set loaded \<longrightarrow>
            ensure_columns loaded = Inr [(''sample_code'', codes), (''gpt_paragraph'', paragraphs)])
     \<and> (\<not> (''sample_code'' \<in> fst ` set loaded \<and> ''gpt_paragraph'' \<in> fst ` set loaded) \<and> 2 \<le> length loaded \<longrightarrow>
            ensure_columns loaded = Inr [(''sample_code'', snd (loaded ! 0)), (''gpt_paragraph'', snd (loaded ! 1))])
     \<and> (length loaded < 2 \<longrightarrow>
            ensure_columns loaded = Inl ValueError \<and> rearrange_file loaded desired_order = Inl ValueError)"
proof (intro conjI impI)
  assume both: "(''sample_code'', codes) \<in> set loaded \<and> (''gpt_paragraph'', paragraphs) \<in> set loaded"
  then have "''sample_code'' \<in> fst ` set loaded" "''gpt_paragraph'' \<in> fst ` set loaded"
    by force+
  moreover have "filter (\<lambda>col. fst col = ''sample_code'') loaded = [(''sample_code'', codes)]"
    using filter_label_distinct [OF assms] both by blast
  moreover have "filter (\<lambda>col. fst col = ''gpt_paragraph'') loaded = [(''gpt_paragraph'', paragraphs)]"
    using filter_label_distinct [OF assms] both by blast
  ultimately show "ensure_columns loaded = Inr [(''sample_code'', codes), (''gpt_paragraph'', paragraphs)]"
    by (simp add: ensure_columns_def select_columns_def)
next
  assume other: "\<not> (''sample_code'' \<in> fst ` set loaded \<and> ''gpt_paragraph'' \<in> fst ` set loaded) \<and> 2 \<le> length loaded"
  then obtain c0 c1 rest where l: "loaded = c0 # c1 # rest"
    by (cases loaded; cases "tl loaded") auto
  have "filter (\<lambda>col. fst col = fst c0) loaded = [c0]"
    using filter_label_distinct [OF assms, of "fst c0" "snd c0"] l by simp
  moreover have "filter (\<lambda>col. fst col = fst c1) loaded = [c1]"
    using filter_label_distinct [OF assms, of "fst c1" "snd c1"] l by simp
  ultimately have "select_columns [fst c0, fst c1] loaded = [c0, c1]"
    by (simp add: select_columns_def)
  then have "ensure_columns loaded = Inr [(''sample_code'', snd c0), (''gpt_paragraph'', snd c1)]"
    using other l unfolding ensure_columns_def by (auto simp: set_columns_def)
  then show "ensure_columns loaded = Inr [(''sample_code'', snd (loaded ! 0)), (''gpt_paragraph'', snd (loaded ! 1))]"
    using l by simp
next
  assume "length loaded < 2"
  then show "ensure_columns loaded = Inl ValueError" by (rule ensure_columns_short)
next
  assume "length loaded < 2"
  then have "ensure_columns loaded = Inl ValueError" by (rule ensure_columns_short)
  then show "rearrange_file loaded desired_order = Inl ValueError"
    by (simp add: rearrange_file_def)
qed


theorem ensure_columns_selection_witness:
  "ensure_columns [(''note'', [''n'']), (''gpt_paragraph'', [''p'']), (''sample_code'', [''c''])]
     = Inr [(''sample_code'', [''c'']), (''gpt_paragraph'', [''p''])]
   \<and> ensure_columns [(''code'', [''c'']), (''text'', [''p'']), (''note'', [''n''])]
     = Inr [(''sample_code'', [''c'']), (''gpt_paragraph'', [''p''])]
   \<and> ensure_columns [(''sample_code'', [''c''])] = Inl ValueError
   \<and> rearrange_file [(''sample_code'', [''c''])] [''c''] = Inl ValueError"
proof -
  have "ensure_columns [(''note'', [''n'']), (''gpt_paragraph'', [''p'']), (''sample_code'', [''c''])]
     = Inr [(''sample_code'', [''c'']), (''gpt_paragraph'', [''p''])]"
    using ensure_columns_selection
      [of "[(''note'', [''n'']), (''gpt_paragraph'', [''p'']), (''sample_code'', [''c''])]" "[''c'']" "[''p'']"]
    by simp
  moreover have "ensure_columns [(''code'', [''c'']), (''text'', [''p'']), (''note'', [''n''])]
     = Inr [(''sample_code'', [''c'']), (''gpt_paragraph'', [''p''])]"
    using ensure_columns_selection [of "[(''code'', [''c'']), (''text'', [''p'']), (''note'', [''n''])]"]
    by simp
  moreover have "ensure_columns [(''sample_code'', [''c''])] = Inl ValueError
      \<and> rearrange_file [(''sample_code'', [''c''])] [''c''] = Inl ValueError"
    using ensure_columns_selection [of "[(''sample_code'', [''c''])]" _ _ "[''c'']"]
    by simp
  ultimately show ?thesis by blast
qed

section \<open>Key normalisation: case, fixed points, separators\<close>





lemma of_char_slash: "(of_char c = (47::nat)) = (c = CHR ''/'')"
proof
  assume "of_char c = (47::nat)"
  then have "char_of (of_char c :: nat) = (char_of (47::nat) :: char)" by simp
  then show "c = CHR ''/''" by (simp only: char_of_char) code_simp
next
  assume "c = CHR ''/''" then show "of_char c = (47::nat)" by simp
qed

lemma of_char_blank: "(of_char c = (32::nat)) = (c = CHR '' '')"
proof
  assume "of_char c = (32::nat)"
  then have "char_of (of_char c :: nat) = (char_of (32::nat) :: char)" by simp
  then show "c = CHR '' ''" by (simp only: char_of_char) code_simp
next
  assume "c = CHR '' ''" then show "of_char c = (32::nat)" by simp
qed


lemma lower_char_slash: "(lower_char c = CHR ''/'') = (c = CHR ''/'')"
  unfolding of_char_slash [symmetric] by (auto simp: lower_char_def Let_def)


lemma lower_char_blank: "lower_char CHR '' '' = CHR '' ''"
  by (simp add: lower_char_def)











lemma multispace_sub_hd: "\<not> isspace c \<Longrightarrow> multispace_sub (c # cs) = c # multispace_sub cs"
  by simp






lemma rstrip_chars_prefix: "\<exists>ys. s = rstrip_chars cs s @ ys"
proof -
  have "rev (dropWhile (\<lambda>c. c \<in> set cs) (rev s)) @ rev (takeWhile (\<lambda>c. c \<in> set cs) (rev s)) = s"
    by (metis rev_append rev_rev_ident takeWhile_dropWhile_id)
  then show ?thesis unfolding rstrip_chars_def by metis
qed





lemma normalize_code_no_slash:
  "normalize_code c = [] \<or> last (normalize_code c) \<noteq> CHR ''/''"
proof (cases "normalize_code c = []")
  case True
  then show ?thesis by simp
next
  case False
  let ?s3 = "rstrip_chars ''/'' (multispace_sub (strip c))"
  have n: "normalize_code c = map lower_char ?s3"
    by (simp add: normalize_code_def lower_def)
  with False have ne: "?s3 \<noteq> []" by simp
  then have "\<not> (last ?s3 \<in> set ''/'')"
    unfolding rstrip_chars_def by (rule rtrim_last)
  then have "last ?s3 \<noteq> CHR ''/''" by simp
  then have "lower_char (last ?s3) \<noteq> CHR ''/''" by (simp add: lower_char_slash)
  then show ?thesis using ne by (simp add: n last_map)
qed









lemma endswith_slash: "endswith s ''/'' \<longleftrightarrow> s \<noteq> [] \<and> last s = CHR ''/''"
  by (cases s rule: rev_cases) (auto simp: endswith_def)

lemma endswith_two: "endswith s ''//'' \<longleftrightarrow> (\<exists>t. s = t @ ''//'')"
proof
  assume "endswith s ''//''"
  then have "s = take (length s - 2) s @ ''//''"
    by (metis append_take_drop_id endswith_def length_Cons list.size(3) numeral_2_eq_2)
  then show "\<exists>t. s = t @ ''//''" by blast
next
  assume "\<exists>t. s = t @ ''//''"
  then show "endswith s ''//''" by (auto simp: endswith_def)
qed

lemma strip_separator_agree:
  "rstrip_chars ''/'' s = spec_strip_separator s \<longleftrightarrow> \<not> endswith s ''//''"
proof (cases s rule: rev_cases)
  case Nil
  then show ?thesis by (simp add: rstrip_chars_def spec_strip_separator_def endswith_def)
next
  case (snoc t x)
  show ?thesis
  proof (cases "x = CHR ''/''")
    case False
    with snoc show ?thesis
      by (auto simp: rstrip_chars_def spec_strip_separator_def endswith_slash endswith_two)
  next
    case True
    have spec: "spec_strip_separator s = t"
      using snoc True by (simp add: spec_strip_separator_def endswith_slash)
    have code: "rstrip_chars ''/'' s = rstrip_chars ''/'' t"
      using snoc True by (simp add: rstrip_chars_def)
    show ?thesis
    proof (cases "t \<noteq> [] \<and> last t = CHR ''/''")
      case True
      then obtain u where "t = u @ ''/''" by (cases t rule: rev_cases) auto
      with snoc \<open>x = CHR ''/''\<close> have e: "endswith s ''//''" by (simp add: endswith_two)
      have "length (rstrip_chars ''/'' t) < length t"
        using \<open>t = u @ ''/''\<close> length_dropWhile_le [of "\<lambda>c. c = CHR ''/''" "rev u"]
        by (simp add: rstrip_chars_def)
      then show ?thesis using e spec code by auto
    next
      case False
      then have "rstrip_chars ''/'' t = t"
        unfolding rstrip_chars_def by (intro rtrim_id) auto
      moreover have "\<not> endswith s ''//''"
        using False snoc by (auto simp: endswith_two)
      ultimately show ?thesis using spec code by simp
    qed
  qed
qed

lemma rstrip_chars_take: "\<exists>k. rstrip_chars cs s = take k s"
  using rstrip_chars_prefix [of s cs] by (metis append_eq_conv_conj)

lemma spec_strip_separator_take: "\<exists>k. spec_strip_separator s = take k s"
  by (metis butlast_conv_take spec_strip_separator_def take_all order_refl)

lemma map_take_eq:
  assumes "map f (take j s) = map f (take k s)"
  shows "take j s = take k s"
proof -
  from assms have "length (take j s) = length (take k s)" by (metis length_map)
  then have "min j (length s) = min k (length s)" by simp
  then show ?thesis by (metis take_all_iff min.absorb1 min.absorb2 min.cobounded2 nat_le_linear take_all)
qed

text \<open>
  Claim C7, amended. Key normalisation is the composition of trimming, collapsing each
  run of white space to one blank, removing every trailing separator and lowercasing:
  the normal form never ends in a separator, and it equals the composition with a single
  separator stripped exactly when the trimmed and collapsed code does not end in two
  separators.
\<close>

theorem normalize_code_strips_every_separator:
  "(normalize_code c = [] \<or> last (normalize_code c) \<noteq> CHR ''/'')
   \<and> (normalize_code c = spec_normalize c \<longleftrightarrow> \<not> endswith (multispace_sub (strip c)) ''//'')"
proof (intro conjI)
  show "normalize_code c = [] \<or> last (normalize_code c) \<noteq> CHR ''/''"
    by (rule normalize_code_no_slash)
next
  let ?s = "multispace_sub (strip c)"
  obtain j where j: "rstrip_chars ''/'' ?s = take j ?s" using rstrip_chars_take by blast
  obtain k where k: "spec_strip_separator ?s = take k ?s" using spec_strip_separator_take by blast
  have "normalize_code c = spec_normalize c
      \<longleftrightarrow> map lower_char (rstrip_chars ''/'' ?s) = map lower_char (spec_strip_separator ?s)"
    by (simp add: normalize_code_def spec_normalize_def lower_def)
  also have "\<dots> \<longleftrightarrow> rstrip_chars ''/'' ?s = spec_strip_separator ?s"
    unfolding j k using map_take_eq by metis
  also have "\<dots> \<longleftrightarrow> \<not> endswith ?s ''//''" by (rule strip_separator_agree)
  finally show "normalize_code c = spec_normalize c \<longleftrightarrow> \<not> endswith ?s ''//''" .
qed

text \<open>
  Claim C7, as stated, fails: the code "GP//" keeps no separator, its normal form is "gp",
  where stripping a single separator gives "gp/".
\<close>

theorem normalize_code_two_separators:
  "normalize_code ''GP//'' = ''gp'' \<and> spec_normalize ''GP//'' = ''gp/''
   \<and> normalize_code ''GP//'' \<noteq> spec_normalize ''GP//''"
proof -
  have a: "normalize_code ''GP//'' = ''gp''" by code_simp
  have b: "spec_normalize ''GP//'' = ''gp/''" by code_simp
  show ?thesis by (simp add: a b)
qed

theorem normalize_code_strips_every_separator_witness:
  "normalize_code ''HG-0760GP/'' = ''hg-0760gp'' \<and> spec_normalize ''HG-0760GP/'' = ''hg-0760gp''"
proof -
  have a: "normalize_code ''HG-0760GP/'' = ''hg-0760gp''" by code_simp
  have b: "multispace_sub (strip ''HG-0760GP/'') = ''HG-0760GP/''" by code_simp
  have "\<not> endswith ''HG-0760GP/'' ''//''" by (simp add: endswith_def)
  with normalize_code_strips_every_separator [of "''HG-0760GP/''"] show ?thesis
    unfolding a b by simp
qed

section \<open>Header normalisation\<close>

lemma length_strip: "length (strip s) \<le> length s"
proof -
  have "length (strip s) \<le> length (dropWhile isspace s)"
    by (simp add: strip_def lstrip_def rstrip_def length_dropWhile_le [of _ "rev (dropWhile isspace s)", simplified])
  also have "\<dots> \<le> length s" by (rule length_dropWhile_le)
  finally show ?thesis .
qed

lemma header_prefix_match_shorter:
  assumes "header_prefix_match h = Some rest"
  shows "length rest < length h"
proof -
  let ?r = "dropWhile isspace h"
  from assms obtain c t where ct: "dropWhile isdigit ?r = c # t" and rest: "rest = dropWhile isspace t"
    by (auto simp: header_prefix_match_def Let_def split: if_splits list.splits)
  have "length rest \<le> length t" unfolding rest by (rule length_dropWhile_le)
  moreover have "length (c # t) \<le> length ?r" unfolding ct [symmetric] by (rule length_dropWhile_le)
  moreover have "length ?r \<le> length h" by (rule length_dropWhile_le)
  ultimately show ?thesis by simp
qed

text \<open>
  Claim C5, as stated, fails: one application removes one enumeration marker, so the
  header "1. 2. Gold" is cleaned to "2. Gold", and cleaning that again gives "Gold".
\<close>

theorem clean_header_not_idempotent:
  "clean_header (Some ''1. 2. Gold'') = ''2. Gold''
   \<and> clean_header (Some (clean_header (Some ''1. 2. Gold''))) = ''Gold''
   \<and> clean_header (Some (clean_header (Some ''1. 2. Gold''))) \<noteq> clean_header (Some ''1. 2. Gold'')"
proof -
  have a: "clean_header (Some ''1. 2. Gold'') = ''2. Gold''" by code_simp
  have b: "clean_header (Some ''2. Gold'') = ''Gold''" by code_simp
  show ?thesis by (simp add: a b)
qed

text \<open>
  Claim C5, amended. Cleaning a cleaned header returns it unchanged exactly when the
  cleaned header does not itself begin with an enumeration marker (digits followed by a
  dot): a header with one leading marker is cleaned once and for all, a header with
  stacked markers loses one marker per application.
\<close>

theorem clean_header_idempotent_iff:
  "clean_header (Some (clean_header (Some h))) = clean_header (Some h)
     \<longleftrightarrow> header_prefix_match (clean_header (Some h)) = None"
proof
  let ?x = "clean_header (Some h)"
  assume idem: "clean_header (Some ?x) = ?x"
  show "header_prefix_match ?x = None"
  proof (rule ccontr)
    assume "header_prefix_match ?x \<noteq> None"
    then obtain rest where m: "header_prefix_match ?x = Some rest" by blast
    then have "length rest < length ?x" by (rule header_prefix_match_shorter)
    moreover have "clean_header (Some ?x) = strip rest"
      using m by (simp add: clean_header_def header_prefix_sub_def)
    moreover have "length (strip rest) \<le> length rest" by (rule length_strip)
    ultimately show False using idem by simp
  qed
next
  let ?x = "clean_header (Some h)"
  assume m: "header_prefix_match ?x = None"
  have "strip ?x = ?x" by (simp add: clean_header_def strip_strip)
  then show "clean_header (Some ?x) = ?x"
    using m by (simp add: clean_header_def [of "Some ?x"] header_prefix_sub_def)
qed

theorem clean_header_idempotent_iff_witness:
  "clean_header (Some '' 3.  Sunset yellow '') = ''Sunset yellow''
   \<and> clean_header (Some (clean_header (Some '' 3.  Sunset yellow ''))) = ''Sunset yellow''"
proof -
  have a: "clean_header (Some '' 3.  Sunset yellow '') = ''Sunset yellow''" by code_simp
  have b: "header_prefix_match ''Sunset yellow'' = None" by code_simp
  from clean_header_idempotent_iff [of "'' 3.  Sunset yellow ''"] show ?thesis
    unfolding a using b by simp
qed

end
